theory Spec2Isabelle
  imports Main "HOL-Library.Word"
begin

unbundle bit_operations_syntax

section \<open>The program\<close>

text \<open>
  The source is one C++ file, \<^verbatim>\<open>nth_bit_permutation.cpp\<close>.  All its integers are
  \<^verbatim>\<open>unsigned\<close>, modelled as \<open>32 word\<close>; the global table \<^verbatim>\<open>pascalt\<close> is a
  vector of vectors of \<^verbatim>\<open>unsigned\<close>, modelled as a list of lists that the
  functions receive as an argument.  The theorems below are about the table as
  \<^verbatim>\<open>make_pascal_triangle\<close> leaves it, which is how \<^verbatim>\<open>main\<close> uses the functions.
\<close>

type_synonym u32 = "32 word"
type_synonym table = "u32 list list"

text \<open>\<^verbatim>\<open>#define MAXBITS 32\<close>\<close>

definition MAXBITS :: nat where
  "MAXBITS = 32"

subsection \<open>\<^verbatim>\<open>make_pascal_triangle\<close>\<close>

text \<open>
  One pass of the outer loop fills row \<open>i\<close> from row \<open>i - 1\<close>: the first entry of the
  previous row, then for \<open>j = 1 ..< size\<close> of the previous row the sum (in \<^verbatim>\<open>unsigned\<close>
  arithmetic, so modulo \<open>2 ^ 32\<close>) of the two entries above, then the last entry of the
  previous row.  The previous row is never empty when the loop reads it (lemmas
  \<open>rows_upto_binomial\<close> and \<open>binomial_row_nonempty\<close> below), so \<open>prev ! 0\<close> and
  \<open>last prev\<close> are the entries the code reads.
\<close>

definition fill_row :: "u32 list \<Rightarrow> u32 list" where
  "fill_row prev =
     (prev ! 0) # map (\<lambda>j. prev ! (j - 1) + prev ! j) [1..<length prev] @ [last prev]"

text \<open>
  \<^verbatim>\<open>pascalt.clear(); pascalt.resize(MAXBITS+1); pascalt[0].push_back(1);\<close> and then
  the loop \<^verbatim>\<open>for (i = 1; i <= MAXBITS; ++i)\<close>, which writes row \<open>i\<close> in place.  The
  function has no input: whatever the table held before is cleared.
\<close>

definition make_pascal_triangle :: table where
  "make_pascal_triangle =
     fold (\<lambda>i t. t[i := fill_row (t ! (i - 1))]) [1..<MAXBITS + 1]
       ((replicate (MAXBITS + 1) [])[0 := [1]])"

subsection \<open>Table reads\<close>

text \<open>
  \<^verbatim>\<open>pascalt[row][col]\<close> uses \<^verbatim>\<open>operator[]\<close>, which does not check its index: a read
  outside the table is undefined behaviour in C++.  The model makes it a value, \<open>None\<close>.
\<close>

definition pascalt_at :: "table \<Rightarrow> u32 \<Rightarrow> u32 \<Rightarrow> u32 option" where
  "pascalt_at tbl row col =
     (if unat row < length tbl \<and> unat col < length (tbl ! unat row)
      then Some (tbl ! unat row ! unat col) else None)"

subsection \<open>Loops\<close>

text \<open>
  Both engines are a \<^verbatim>\<open>for(;;)\<close> with a \<^verbatim>\<open>break\<close>.  One pass over the loop body either
  goes round again with a new state, leaves the loop with the function's result, or
  reads the table out of range.
\<close>

datatype error = OutOfRange

datatype ('s, 'r) step = Continue 's | Break 'r | Fault

text \<open>
  \<open>loop body n s\<close> runs the loop from state \<open>s\<close>, \<open>n\<close> passes having gone round already.
  It is \<open>None\<close> when the loop never ends; otherwise it gives the number of passes that
  went round (the pass that leaves the loop is not counted) and the outcome.
\<close>

partial_function (option) loop ::
  "('s \<Rightarrow> ('s, 'r) step) \<Rightarrow> nat \<Rightarrow> 's \<Rightarrow> (nat \<times> (error + 'r)) option"
where
  "loop body n s =
     (case body s of
        Continue s' \<Rightarrow> loop body (Suc n) s'
      | Break r \<Rightarrow> Some (n, Inr r)
      | Fault \<Rightarrow> Some (n, Inl OutOfRange))"

declare loop.simps [code]

subsection \<open>\<^verbatim>\<open>rank_from_permutation\<close>\<close>

record rank_state =
  row :: u32
  col :: u32
  thisbit :: u32
  total :: u32

definition rank_body :: "table \<Rightarrow> u32 \<Rightarrow> rank_state \<Rightarrow> (rank_state, u32) step" where
  "rank_body tbl bitmap s =
     (case pascalt_at tbl (row s) (col s) of
        None \<Rightarrow> Fault
      | Some v \<Rightarrow>
          if v = 1 then Break (total s)
          else
            let row' = row s - 1 in
            if bitmap AND thisbit s \<noteq> 0 then
              (case pascalt_at tbl row' (col s - 1) of
                 None \<Rightarrow> Fault
               | Some w \<Rightarrow>
                   Continue \<lparr>row = row', col = col s,
                             thisbit = drop_bit 1 (thisbit s), total = total s + w\<rparr>)
            else
              Continue \<lparr>row = row', col = col s - 1,
                        thisbit = drop_bit 1 (thisbit s), total = total s\<rparr>)"

text \<open>
  \<^verbatim>\<open>unsigned thisbit = 1 << (ntotbits-1);\<close>  For \<open>1 \<le> ntotbits \<le> 32\<close> this is
  \<open>2 ^ (ntotbits - 1)\<close> (lemma \<open>top_bit_pos\<close> below).  For \<open>ntotbits = 0\<close> the shift count is
  \<open>2 ^ 32 - 1\<close>, for which C++ defines no result; \<open>push_bit\<close> gives 0 there (lemma
  \<open>top_bit_0\<close> below).  The value is never read in that case: with \<open>row = 0\<close>
  neither loop body reaches a use of \<open>thisbit\<close> (lemmas \<open>rank_body_row0\<close> and
  \<open>perm_body_row0\<close> below).
\<close>

definition top_bit :: "u32 \<Rightarrow> u32" where
  "top_bit ntotbits = push_bit (unat (ntotbits - 1)) 1"

definition rank_init :: "u32 \<Rightarrow> u32 \<Rightarrow> rank_state" where
  "rank_init ntotbits nsetbits =
     \<lparr>row = ntotbits, col = ntotbits - nsetbits, thisbit = top_bit ntotbits, total = 0\<rparr>"

definition rank_from_permutation :: "table \<Rightarrow> u32 \<Rightarrow> u32 \<Rightarrow> u32 \<Rightarrow> (error + u32) option" where
  "rank_from_permutation tbl bitmap ntotbits nsetbits =
     map_option snd (loop (rank_body tbl bitmap) 0 (rank_init ntotbits nsetbits))"

subsection \<open>\<^verbatim>\<open>permutation_from_rank\<close>\<close>

record perm_state =
  rank :: u32
  prow :: u32
  pcol :: u32
  pthisbit :: u32
  res :: u32

definition perm_body :: "table \<Rightarrow> perm_state \<Rightarrow> (perm_state, u32) step" where
  "perm_body tbl s =
     (if prow s = 0 then Break (res s)
      else
        let row' = prow s - 1 in
        if pcol s > 0 then
          (case pascalt_at tbl row' (pcol s - 1) of
             None \<Rightarrow> Fault
           | Some v \<Rightarrow>
               if rank s < v then
                 Continue \<lparr>rank = rank s, prow = row', pcol = pcol s - 1,
                           pthisbit = drop_bit 1 (pthisbit s), res = res s\<rparr>
               else
                 (case pascalt_at tbl row' (pcol s - 1) of
                    None \<Rightarrow> Fault
                  | Some w \<Rightarrow>
                      Continue \<lparr>rank = rank s - w, prow = row', pcol = pcol s,
                                pthisbit = drop_bit 1 (pthisbit s),
                                res = res s OR pthisbit s\<rparr>))
        else
          Continue \<lparr>rank = rank s, prow = row', pcol = pcol s,
                    pthisbit = drop_bit 1 (pthisbit s), res = res s OR pthisbit s\<rparr>)"

definition perm_init :: "u32 \<Rightarrow> u32 \<Rightarrow> u32 \<Rightarrow> perm_state" where
  "perm_init r ntotbits nsetbits =
     \<lparr>rank = r, prow = ntotbits, pcol = ntotbits - nsetbits,
      pthisbit = top_bit ntotbits, res = 0\<rparr>"

definition permutation_from_rank :: "table \<Rightarrow> u32 \<Rightarrow> u32 \<Rightarrow> u32 \<Rightarrow> (error + u32) option" where
  "permutation_from_rank tbl r ntotbits nsetbits =
     map_option snd (loop (perm_body tbl) 0 (perm_init r ntotbits nsetbits))"

section \<open>Notions used by the specification\<close>

text \<open>
  The population count of the low \<open>n\<close> bits of a bit-vector, and membership of a
  bit-vector in the class \<open>(ntotbits, nsetbits)\<close>: exactly \<open>nsetbits\<close> of the low
  \<open>ntotbits\<close> bits are set, and no bit at position \<open>ntotbits\<close> or above is set.
\<close>

definition popcount_low :: "nat \<Rightarrow> u32 \<Rightarrow> nat" where
  "popcount_low n b = length (filter (bit b) [0..<n])"

definition in_class :: "u32 \<Rightarrow> u32 \<Rightarrow> u32 \<Rightarrow> bool" where
  "in_class b ntotbits nsetbits \<longleftrightarrow>
     popcount_low (unat ntotbits) b = unat nsetbits \<and> drop_bit (unat ntotbits) b = 0"

section \<open>Auxiliary functions for the proofs\<close>

text \<open>Row \<open>i\<close> of Pascal's triangle, and the table after the outer loop has run up to \<open>m\<close>.\<close>

definition binomial_row :: "nat \<Rightarrow> u32 list" where
  "binomial_row i = map (\<lambda>j. of_nat (i choose j)) [0..<Suc i]"

definition rows_upto :: "nat \<Rightarrow> table" where
  "rows_upto m =
     fold (\<lambda>i t. t[i := fill_row (t ! (i - 1))]) [1..<Suc m]
       ((replicate (MAXBITS + 1) [])[0 := [1]])"

text \<open>
  What the two loops compute, on natural numbers: \<open>m\<close> is the number of bit positions
  still to visit (\<open>row\<close>), \<open>c\<close> the number of zero bits still to place (\<open>col\<close>).
\<close>

fun rank_nat :: "nat \<Rightarrow> nat \<Rightarrow> nat \<Rightarrow> nat" where
  "rank_nat 0 c b = 0"
| "rank_nat (Suc m) c b =
     (if c = 0 \<or> c = Suc m then 0
      else if bit b m then (m choose (c - 1)) + rank_nat m c b
      else rank_nat m (c - 1) b)"

fun unrank_nat :: "nat \<Rightarrow> nat \<Rightarrow> nat \<Rightarrow> nat" where
  "unrank_nat 0 c r = 0"
| "unrank_nat (Suc m) c r =
     (if 0 < c \<and> r < (m choose (c - 1)) then unrank_nat m (c - 1) r
      else 2 ^ m + unrank_nat m c (if 0 < c then r - (m choose (c - 1)) else r))"

definition ones_below :: "nat \<Rightarrow> nat \<Rightarrow> nat" where
  "ones_below m b = length (filter (bit b) [0..<m])"

section \<open>The table holds the binomial coefficients\<close>

lemma length_binomial_row: "length (binomial_row i) = Suc i"
  by (simp add: binomial_row_def)

lemma nth_binomial_row: "j \<le> i \<Longrightarrow> binomial_row i ! j = of_nat (i choose j)"
  unfolding binomial_row_def by (simp add: nth_map_upt del: upt_Suc)

lemma last_binomial_row: "last (binomial_row i) = 1"
  by (simp add: binomial_row_def)

lemma length_fill_row: "prev \<noteq> [] \<Longrightarrow> length (fill_row prev) = Suc (length prev)"
  by (cases prev) (auto simp add: fill_row_def Suc_le_eq)

lemma binomial_row_nonempty: "binomial_row i \<noteq> []"
  by (simp add: binomial_row_def)

lemma fill_row_binomial_row: "fill_row (binomial_row i) = binomial_row (Suc i)"
proof (rule nth_equalityI)
  show "length (fill_row (binomial_row i)) = length (binomial_row (Suc i))"
    by (simp add: length_fill_row binomial_row_nonempty length_binomial_row)
next
  fix j
  assume "j < length (fill_row (binomial_row i))"
  then have j: "j \<le> Suc i"
    by (simp add: length_fill_row binomial_row_nonempty length_binomial_row)
  consider "j = 0" | "0 < j" "j \<le> i" | "j = Suc i"
    using j by linarith
  then show "fill_row (binomial_row i) ! j = binomial_row (Suc i) ! j"
  proof cases
    case 1
    then show ?thesis
      by (simp add: fill_row_def nth_binomial_row)
  next
    case 2
    then obtain j' where j': "j = Suc j'" "j' < i"
      by (cases j) auto
    have "fill_row (binomial_row i) ! j
        = (map (\<lambda>j. binomial_row i ! (j - 1) + binomial_row i ! j) [1..<Suc i]) ! j'"
      using j' by (simp add: fill_row_def length_binomial_row nth_append del: upt_Suc)
    also have "\<dots> = binomial_row i ! j' + binomial_row i ! Suc j'"
      using j' by (simp add: nth_map_upt del: upt_Suc)
    also have "\<dots> = of_nat (Suc i choose Suc j')"
      using j' by (simp add: nth_binomial_row)
    finally show ?thesis
      using j' by (simp add: nth_binomial_row del: binomial_Suc_Suc)
  next
    case 3
    have "fill_row (binomial_row i) ! Suc i = last (binomial_row i)"
      by (simp add: fill_row_def length_binomial_row nth_append del: upt_Suc)
    then show ?thesis
      using 3 by (simp add: nth_binomial_row last_binomial_row)
  qed
qed

lemma rows_upto_Suc:
  "rows_upto (Suc m) = (rows_upto m)[Suc m := fill_row (rows_upto m ! m)]"
  by (simp add: rows_upto_def)

lemma length_rows_upto: "length (rows_upto m) = Suc MAXBITS"
  by (induction m) (simp_all add: rows_upto_Suc, simp add: rows_upto_def)

lemma rows_upto_binomial:
  "m \<le> MAXBITS \<Longrightarrow> r \<le> m \<Longrightarrow> rows_upto m ! r = binomial_row r"
proof (induction m arbitrary: r)
  case 0
  then show ?case
    by (simp add: rows_upto_def binomial_row_def)
next
  case (Suc m)
  show ?case
  proof (cases "r = Suc m")
    case True
    have "rows_upto m ! m = binomial_row m"
      using Suc.IH [of m] Suc.prems by simp
    then show ?thesis
      using True Suc.prems
      by (simp add: rows_upto_Suc length_rows_upto fill_row_binomial_row)
  next
    case False
    then have "r \<le> m" using Suc.prems by simp
    then show ?thesis
      using False Suc.IH [of r] Suc.prems by (simp add: rows_upto_Suc)
  qed
qed

lemma make_pascal_triangle_rows: "make_pascal_triangle = rows_upto MAXBITS"
  by (simp add: make_pascal_triangle_def rows_upto_def)

lemma length_make_pascal_triangle: "length make_pascal_triangle = Suc MAXBITS"
  by (simp add: make_pascal_triangle_rows length_rows_upto)

lemma make_pascal_triangle_row:
  "i \<le> MAXBITS \<Longrightarrow> make_pascal_triangle ! i = binomial_row i"
  by (simp add: make_pascal_triangle_rows rows_upto_binomial)

lemma binomial_less_half: "0 < n \<Longrightarrow> n choose k \<le> 2 ^ (n - 1)"
proof (cases n)
  case 0
  then show "0 < n \<Longrightarrow> ?thesis" by simp
next
  case (Suc m)
  show ?thesis
  proof (cases k)
    case 0
    then show ?thesis by simp
  next
    case (Suc j)
    have "(m choose j) + (m choose Suc j) \<le> sum ((choose) m) {..m}"
    proof (cases "Suc j \<le> m")
      case True
      have "sum ((choose) m) {j, Suc j} \<le> sum ((choose) m) {..m}"
        using True by (intro sum_mono2) auto
      then show ?thesis by simp
    next
      case False
      then have e1: "m choose Suc j = 0" by (simp add: binomial_eq_0)
      have e2: "m choose j \<le> sum ((choose) m) {..m}"
      proof (cases "j \<le> m")
        case True
        have "sum ((choose) m) {j} \<le> sum ((choose) m) {..m}"
          using True by (intro sum_mono2) auto
        then show ?thesis by simp
      next
        case False
        then show ?thesis by (simp add: binomial_eq_0)
      qed
      show ?thesis by (simp only: e1 e2 add_0_right)
    qed
    then show ?thesis
      using \<open>n = Suc m\<close> Suc by (simp add: choose_row_sum)
  qed
qed

lemma binomial_less_2p32: "n \<le> MAXBITS \<Longrightarrow> n choose k < 2 ^ 32"
proof (cases "n = 0")
  case True
  then show ?thesis
    using binomial_le_pow2 [of 0 k] by simp
next
  case False
  assume "n \<le> MAXBITS"
  then have "n - 1 \<le> 31" by (simp add: MAXBITS_def)
  have "n choose k \<le> 2 ^ (n - 1)"
    using False binomial_less_half [of n k] by simp
  also have "\<dots> \<le> (2::nat) ^ 31"
    using \<open>n - 1 \<le> 31\<close> by (intro power_increasing) auto
  finally show ?thesis by simp
qed

lemma unat_of_nat_binomial:
  "n \<le> MAXBITS \<Longrightarrow> unat (of_nat (n choose k) :: u32) = n choose k"
  using binomial_less_2p32 [of n k] by (simp add: unat_of_nat)

section \<open>Ranking and unranking on natural numbers\<close>

lemma ones_below_Suc: "ones_below (Suc m) b = ones_below m b + (if bit b m then 1 else 0)"
  by (simp add: ones_below_def)

lemma ones_below_le: "ones_below m b \<le> m"
  unfolding ones_below_def using length_filter_le [of "bit b" "[0..<m]"] by simp

lemma binomial_gt_1: "0 < c \<Longrightarrow> c < m \<Longrightarrow> 1 < m choose c"
proof -
  assume "0 < c" "c < m"
  then obtain m' c' where eq: "m = Suc m'" "c = Suc c'" "c' < m'"
    by (cases m; cases c) auto
  have "0 < m' choose c'" "0 < m' choose Suc c'"
    using eq by (simp_all add: zero_less_binomial)
  then have "1 < (m' choose c') + (m' choose Suc c')"
    by linarith
  then show ?thesis
    unfolding eq binomial_Suc_Suc .
qed

lemma binomial_eq_1_iff: "c \<le> m \<Longrightarrow> m choose c = 1 \<longleftrightarrow> c = 0 \<or> c = m"
  using binomial_gt_1 [of c m] by (cases "c = 0"; cases "c = m") auto

lemma unrank_nat_less: "unrank_nat m c r < 2 ^ m"
proof (induction m arbitrary: c r)
  case 0
  show ?case by simp
next
  case (Suc m)
  have "unrank_nat m c' r' < 2 ^ m" for c' r'
    by (rule Suc.IH)
  note ih = this
  show ?case
    using ih [of "c - 1" r] ih [of c r] ih [of c "r - (m choose (c - 1))"]
    by auto
qed

lemma rank_nat_less: "c \<le> m \<Longrightarrow> rank_nat m c b < m choose c"
proof (induction m arbitrary: c)
  case 0
  then show ?case by simp
next
  case (Suc m)
  show ?case
  proof (cases "c = 0 \<or> c = Suc m")
    case True
    then show ?thesis by auto
  next
    case False
    then obtain c' where c': "c = Suc c'" "c' < m"
      using Suc.prems by (cases c) auto
    have "rank_nat m c b < m choose c" "rank_nat m c' b < m choose c'"
      using c' Suc.IH [of c] Suc.IH [of c'] by simp_all
    then show ?thesis
      using c' by simp
  qed
qed

lemma rank_nat_take_bit: "rank_nat m c (take_bit m b) = rank_nat m c b"
proof (induction m arbitrary: c b)
  case 0
  then show ?case by simp
next
  case (Suc m)
  have "rank_nat m c' (take_bit (Suc m) b) = rank_nat m c' b" for c'
  proof -
    have "rank_nat m c' (take_bit (Suc m) b) = rank_nat m c' (take_bit m (take_bit (Suc m) b))"
      by (rule Suc.IH [symmetric])
    also have "\<dots> = rank_nat m c' (take_bit m b)"
      by simp
    also have "\<dots> = rank_nat m c' b"
      by (rule Suc.IH)
    finally show ?thesis .
  qed
  then show ?case
    by (simp add: bit_take_bit_iff)
qed

lemma rank_unrank_nat:
  "c \<le> m \<Longrightarrow> r < m choose c \<Longrightarrow> rank_nat m c (unrank_nat m c r) = r"
proof (induction m arbitrary: c r)
  case 0
  then show ?case by simp
next
  case (Suc m)
  show ?case
  proof (cases "0 < c \<and> r < (m choose (c - 1))")
    case True
    then obtain c' where c': "c = Suc c'" "c' \<le> m" "r < m choose c'"
      using Suc.prems by (cases c) auto
    have u: "unrank_nat (Suc m) c r = unrank_nat m c' r"
      using c' by simp
    have nb: "\<not> bit (unrank_nat m c' r) m"
      using unrank_nat_less [of m c' r] by (simp add: bit_iff_odd)
    show ?thesis
    proof (cases "c = Suc m")
      case True
      then have "r = 0" using c' by simp
      then show ?thesis using True by simp
    next
      case False
      then show ?thesis
        unfolding u using c' nb Suc.IH [of c' r] by simp
    qed
  next
    case False
    define r' where "r' = (if 0 < c then r - (m choose (c - 1)) else r)"
    have u: "unrank_nat (Suc m) c r = 2 ^ m + unrank_nat m c r'"
      using False by (auto simp add: r'_def)
    have lt: "unrank_nat m c r' < 2 ^ m"
      by (rule unrank_nat_less)
    have b: "bit (2 ^ m + unrank_nat m c r') m"
      using lt by (simp add: bit_iff_odd div_add_self1)
    have tb: "take_bit m (2 ^ m + unrank_nat m c r') = unrank_nat m c r'"
      using lt by (simp add: take_bit_eq_mod)
    show ?thesis
    proof (cases "c = 0 \<or> c = Suc m")
      case True
      then have "r = 0"
        using Suc.prems by auto
      then show ?thesis
        using True by auto
    next
      case False2: False
      then obtain c' where c': "c = Suc c'" "c' < m"
        using Suc.prems by (cases c) auto
      have ge: "m choose c' \<le> r"
        using False c' by simp
      have r': "r' = r - (m choose c')" "r' < m choose c"
        using Suc.prems ge c' by (simp_all add: r'_def)
      have "rank_nat m c (2 ^ m + unrank_nat m c r') = rank_nat m c (unrank_nat m c r')"
        using rank_nat_take_bit [of m c "2 ^ m + unrank_nat m c r'"] by (simp only: tb)
      also have "\<dots> = r'"
        using c' r' by (intro Suc.IH) simp_all
      finally show ?thesis
        unfolding u using False2 b c' ge r' by simp
    qed
  qed
qed

lemma unrank_nat_all_ones: "unrank_nat m 0 r = 2 ^ m - 1"
  by (induction m) simp_all

lemma unrank_nat_all_zero: "unrank_nat m m 0 = 0"
  by (induction m) simp_all

lemma ones_below_full: "ones_below m b = m \<Longrightarrow> take_bit m b = 2 ^ m - 1"
proof (induction m)
  case 0
  show ?case by simp
next
  case (Suc m)
  have le: "ones_below m b \<le> m" by (rule ones_below_le)
  from Suc.prems le have b: "bit b m" and f: "ones_below m b = m"
    by (auto simp add: ones_below_Suc split: if_splits)
  have "take_bit (Suc m) b = 2 ^ m + take_bit m b"
    using b by (simp add: take_bit_Suc_from_most)
  then show ?case
    using Suc.IH [OF f] by simp
qed

lemma ones_below_none: "ones_below m b = 0 \<Longrightarrow> take_bit m b = 0"
proof (induction m)
  case 0
  show ?case by simp
next
  case (Suc m)
  from Suc.prems have b: "\<not> bit b m" and f: "ones_below m b = 0"
    by (auto simp add: ones_below_Suc split: if_splits)
  then show ?case
    using Suc.IH [OF f] by (simp add: take_bit_Suc_from_most)
qed

lemma unrank_rank_nat:
  "c \<le> m \<Longrightarrow> ones_below m b = m - c \<Longrightarrow> unrank_nat m c (rank_nat m c b) = take_bit m b"
proof (induction m arbitrary: c)
  case 0
  then show ?case by simp
next
  case (Suc m)
  consider "c = 0" | "c = Suc m" | c' where "c = Suc c'" "c' < m"
    using Suc.prems(1) by (cases c) (auto simp: less_Suc_eq_le le_less)
  then show ?case
  proof cases
    case 1
    then have "take_bit (Suc m) b = 2 ^ Suc m - 1"
      using Suc.prems by (intro ones_below_full) simp
    then show ?thesis
      using 1 by (simp add: unrank_nat_all_ones del: unrank_nat.simps)
  next
    case 2
    then have "take_bit (Suc m) b = 0"
      using Suc.prems by (intro ones_below_none) simp
    then show ?thesis
      using 2 unrank_nat_all_zero [of "Suc m"] by (simp del: unrank_nat.simps)
  next
    case 3
    show ?thesis
    proof (cases "bit b m")
      case True
      have ob: "ones_below m b = m - c"
        using Suc.prems 3 True by (simp add: ones_below_Suc)
      have "unrank_nat m c (rank_nat m c b) = take_bit m b"
        using 3 ob by (intro Suc.IH) simp_all
      then show ?thesis
        using 3 True by (simp add: take_bit_Suc_from_most)
    next
      case False
      have ob: "ones_below m b = m - c'"
        using Suc.prems 3 False by (simp add: ones_below_Suc)
      have ih: "unrank_nat m c' (rank_nat m c' b) = take_bit m b"
        using 3 ob by (intro Suc.IH) simp_all
      have "rank_nat m c' b < m choose c'"
        using 3 by (intro rank_nat_less) simp
      then show ?thesis
        using 3 False ih by (simp add: take_bit_Suc_from_most)
    qed
  qed
qed

lemma unrank_nat_mono:
  "c \<le> m \<Longrightarrow> r < r' \<Longrightarrow> r' < m choose c \<Longrightarrow> unrank_nat m c r < unrank_nat m c r'"
proof (induction m arbitrary: c r r')
  case 0
  then show ?case by simp
next
  case (Suc m)
  from Suc.prems obtain c' where c': "c = Suc c'" "c' \<le> m"
    by (cases c) auto
  show ?case
  proof (cases "r' < m choose c'")
    case True
    then have "unrank_nat m c' r < unrank_nat m c' r'"
      using c' Suc.prems by (intro Suc.IH) simp_all
    then show ?thesis
      using True c' Suc.prems by simp
  next
    case hi: False
    show ?thesis
    proof (cases "r < m choose c'")
      case True
      have "unrank_nat m c' r < 2 ^ m"
        by (rule unrank_nat_less)
      then show ?thesis
        using True hi c' by simp
    next
      case False
      have lt: "r' - (m choose c') < m choose Suc c'"
        using Suc.prems hi c' by simp
      then have "Suc c' \<le> m"
        by (cases "Suc c' \<le> m") (simp_all add: binomial_eq_0)
      then have "unrank_nat m (Suc c') (r - (m choose c')) < unrank_nat m (Suc c') (r' - (m choose c'))"
        using lt False hi Suc.prems by (intro Suc.IH) simp_all
      then show ?thesis
        using False hi c' by simp
    qed
  qed
qed

section \<open>One pass of each loop\<close>

lemma pascalt_at_binomial:
  "unat r = m \<Longrightarrow> unat k = c \<Longrightarrow> m \<le> MAXBITS \<Longrightarrow> c \<le> m \<Longrightarrow>
   pascalt_at make_pascal_triangle r k = Some (of_nat (m choose c))"
  by (simp add: pascalt_at_def length_make_pascal_triangle
      make_pascal_triangle_row length_binomial_row nth_binomial_row)

lemma unat_pred: "unat (w :: u32) = m \<Longrightarrow> m \<noteq> 0 \<Longrightarrow> unat (w - 1) = m - 1"
  by (auto simp add: unat_gt_0 unat_minus_one)

lemma of_nat_binomial_eq_1:
  "m \<le> MAXBITS \<Longrightarrow> c \<le> m \<Longrightarrow> (of_nat (m choose c) :: u32) = 1 \<longleftrightarrow> c = 0 \<or> c = m"
proof -
  assume m: "m \<le> MAXBITS" and c: "c \<le> m"
  have "(of_nat (m choose c) :: u32) = 1 \<longleftrightarrow> unat (of_nat (m choose c) :: u32) = unat (1 :: u32)"
    by (simp only: word_unat_eq_iff)
  also have "\<dots> \<longleftrightarrow> m choose c = 1"
    using m by (simp add: unat_of_nat_binomial)
  also have "\<dots> \<longleftrightarrow> c = 0 \<or> c = m"
    using c by (rule binomial_eq_1_iff)
  finally show ?thesis .
qed

lemma less_of_nat_binomial:
  "m \<le> MAXBITS \<Longrightarrow> (r :: u32) < of_nat (m choose c) \<longleftrightarrow> unat r < m choose c"
  by (simp add: word_less_nat_alt unat_of_nat_binomial)

lemma drop_bit_top:
  "j < MAXBITS \<Longrightarrow> j \<noteq> 0 \<Longrightarrow> drop_bit 1 (2 ^ j :: u32) = 2 ^ (j - 1)"
  unfolding MAXBITS_def
  by (subst drop_bit_exp_eq) (simp add: possible_bit_word)

lemma rank_body_step:
  assumes "unat (row s) = m" "unat (col s) = c" "m \<le> MAXBITS" "c \<le> m"
    and "m \<noteq> 0 \<longrightarrow> thisbit s = 2 ^ (m - 1)"
  shows "rank_body make_pascal_triangle bitmap s =
     (if c = 0 \<or> c = m then Break (total s)
      else if bit bitmap (m - 1) then
        Continue \<lparr>row = row s - 1, col = col s, thisbit = drop_bit 1 (thisbit s),
                  total = total s + of_nat ((m - 1) choose (c - 1))\<rparr>
      else
        Continue \<lparr>row = row s - 1, col = col s - 1, thisbit = drop_bit 1 (thisbit s),
                  total = total s\<rparr>)"
proof -
  have l1: "pascalt_at make_pascal_triangle (row s) (col s) = Some (of_nat (m choose c))"
    using assms(1-4) by (rule pascalt_at_binomial)
  show ?thesis
  proof (cases "c = 0 \<or> c = m")
    case True
    then have "(of_nat (m choose c) :: u32) = 1"
      using assms(3,4) by (simp only: of_nat_binomial_eq_1)
    then show ?thesis
      using True by (simp add: rank_body_def l1)
  next
    case False
    then have c: "c \<noteq> 0" and m: "m \<noteq> 0" "m - 1 \<le> MAXBITS" "c - 1 \<le> m - 1"
      using assms(3,4) by auto
    have ur: "unat (row s - 1) = m - 1"
      using assms(1) m(1) by (rule unat_pred)
    have uc: "unat (col s - 1) = c - 1"
      using assms(2) c by (rule unat_pred)
    have l2: "pascalt_at make_pascal_triangle (row s - 1) (col s - 1)
        = Some (of_nat ((m - 1) choose (c - 1)))"
      using ur uc m(2,3) by (rule pascalt_at_binomial)
    have ne: "(of_nat (m choose c) :: u32) \<noteq> 1"
      using False assms(3,4) by (simp only: of_nat_binomial_eq_1) simp
    have tb: "thisbit s = 2 ^ (m - 1)"
      using assms(5) m by simp
    have bt: "bitmap AND thisbit s \<noteq> 0 \<longleftrightarrow> bit bitmap (m - 1)"
      by (simp only: tb and_exp_eq_0_iff_not_bit) simp
    show ?thesis
      using False
      by (simp only: rank_body_def l1 l2 ne bt Let_def option.case if_False if_True)
  qed
qed

section \<open>The loops\<close>

lemma loop_Continue: "body s = Continue s' \<Longrightarrow> loop body n s = loop body (Suc n) s'"
  by (subst loop.simps) simp

lemma loop_Break: "body s = Break r \<Longrightarrow> loop body n s = Some (n, Inr r)"
  by (subst loop.simps) simp

lemma loop_Fault: "body s = Fault \<Longrightarrow> loop body n s = Some (n, Inl OutOfRange)"
  by (subst loop.simps) simp

lemma bit_unat_u32: "bit (unat (w :: u32)) i \<longleftrightarrow> bit w i"
  by (auto simp add: bit_unsigned_iff dest: bit_imp_possible_bit)

lemma rank_loop_result:
  assumes "unat (row s) = m" "unat (col s) = c" "m \<le> MAXBITS" "c \<le> m"
    and "m \<noteq> 0 \<longrightarrow> thisbit s = 2 ^ (m - 1)"
  shows "\<exists>i\<le>m. loop (rank_body make_pascal_triangle bitmap) n s
           = Some (n + i, Inr (total s + of_nat (rank_nat m c (unat bitmap))))"
  using assms
proof (induction m arbitrary: c s n)
  case 0
  then have "rank_body make_pascal_triangle bitmap s = Break (total s)"
    using rank_body_step [of s 0 c bitmap] by simp
  then show ?case
    by (simp add: loop_Break)
next
  case (Suc m)
  note step = rank_body_step [OF Suc.prems, of bitmap]
  show ?case
  proof (cases "c = 0 \<or> c = Suc m")
    case True
    then have "rank_body make_pascal_triangle bitmap s = Break (total s)"
      using step by simp
    then show ?thesis
      using True by (auto simp add: loop_Break)
  next
    case False
    then have c: "c \<noteq> 0" "c \<le> m" "c - 1 \<le> m"
      using Suc.prems by auto
    have ur: "unat (row s - 1) = m"
      using unat_pred [OF Suc.prems(1)] by simp
    have uc: "unat (col s - 1) = c - 1"
      using Suc.prems(2) c(1) by (rule unat_pred)
    have m: "m \<le> MAXBITS" "m < MAXBITS"
      using Suc.prems(3) by simp_all
    have tb: "m \<noteq> 0 \<longrightarrow> drop_bit 1 (thisbit s) = 2 ^ (m - 1)"
      using Suc.prems(5) m(2) drop_bit_top [of m] by simp
    show ?thesis
    proof (cases "bit bitmap m")
      case True
      define s' where "s' = \<lparr>row = row s - 1, col = col s, thisbit = drop_bit 1 (thisbit s),
                  total = total s + of_nat (m choose (c - 1))\<rparr>"
      have b: "rank_body make_pascal_triangle bitmap s = Continue s'"
        using step False True by (simp add: s'_def)
      have "\<exists>i\<le>m. loop (rank_body make_pascal_triangle bitmap) (Suc n) s'
           = Some (Suc n + i, Inr (total s' + of_nat (rank_nat m c (unat bitmap))))"
        using ur Suc.prems(2) m(1) c(2) tb by (intro Suc.IH) (simp_all add: s'_def)
      then obtain i where i: "i \<le> m"
        "loop (rank_body make_pascal_triangle bitmap) (Suc n) s'
           = Some (Suc n + i, Inr (total s' + of_nat (rank_nat m c (unat bitmap))))"
        by blast
      have "loop (rank_body make_pascal_triangle bitmap) n s
           = Some (n + Suc i, Inr (total s + of_nat (rank_nat (Suc m) c (unat bitmap))))"
        using i(2) False True by (simp add: loop_Continue [of "rank_body make_pascal_triangle bitmap" s s', OF b] s'_def bit_unat_u32)
      then show ?thesis
        using i(1) by (intro exI [of _ "Suc i"]) simp
    next
      case nb: False
      define s' where "s' = \<lparr>row = row s - 1, col = col s - 1, thisbit = drop_bit 1 (thisbit s),
                  total = total s\<rparr>"
      have b: "rank_body make_pascal_triangle bitmap s = Continue s'"
        using step False nb by (simp add: s'_def)
      have "\<exists>i\<le>m. loop (rank_body make_pascal_triangle bitmap) (Suc n) s'
           = Some (Suc n + i, Inr (total s' + of_nat (rank_nat m (c - 1) (unat bitmap))))"
        using ur uc m(1) c(3) tb by (intro Suc.IH) (simp_all add: s'_def)
      then obtain i where i: "i \<le> m"
        "loop (rank_body make_pascal_triangle bitmap) (Suc n) s'
           = Some (Suc n + i, Inr (total s' + of_nat (rank_nat m (c - 1) (unat bitmap))))"
        by blast
      have "loop (rank_body make_pascal_triangle bitmap) n s
           = Some (n + Suc i, Inr (total s + of_nat (rank_nat (Suc m) c (unat bitmap))))"
        using i(2) False nb by (simp add: loop_Continue [of "rank_body make_pascal_triangle bitmap" s s', OF b] s'_def bit_unat_u32)
      then show ?thesis
        using i(1) by (intro exI [of _ "Suc i"]) simp
    qed
  qed
qed

lemma pow2_add_eq_or: "x < 2 ^ m \<Longrightarrow> (2 ^ m + x :: nat) = 2 ^ m OR x"
proof (rule disjunctive_add)
  fix n
  assume "x < 2 ^ m"
  then have "\<not> bit x m"
    by (simp add: bit_iff_odd)
  then show "\<not> bit ((2::nat) ^ m) n \<or> \<not> bit x n"
    by (auto simp add: bit_exp_iff)
qed

lemma of_nat_pow2_add:
  "x < 2 ^ m \<Longrightarrow> (of_nat (2 ^ m + x) :: u32) = 2 ^ m OR of_nat x"
  by (simp only: pow2_add_eq_or of_nat_or_eq) simp

lemma perm_body_step:
  assumes "unat (prow s) = m" "unat (pcol s) = c" "m \<le> MAXBITS" "c \<le> m"
  shows "perm_body make_pascal_triangle s =
     (if m = 0 then Break (res s)
      else if 0 < c \<and> unat (rank s) < (m - 1) choose (c - 1) then
        Continue \<lparr>rank = rank s, prow = prow s - 1, pcol = pcol s - 1,
                  pthisbit = drop_bit 1 (pthisbit s), res = res s\<rparr>
      else
        Continue \<lparr>rank = (if 0 < c then rank s - of_nat ((m - 1) choose (c - 1)) else rank s),
                  prow = prow s - 1, pcol = pcol s,
                  pthisbit = drop_bit 1 (pthisbit s), res = res s OR pthisbit s\<rparr>)"
proof (cases "m = 0")
  case True
  then have "prow s = 0"
    using assms(1) by (simp add: unat_eq_0)
  then show ?thesis
    using True by (simp add: perm_body_def)
next
  case m: False
  then have r0: "prow s \<noteq> 0"
    using assms(1) by auto
  have ur: "unat (prow s - 1) = m - 1"
    using assms(1) m by (rule unat_pred)
  show ?thesis
  proof (cases "c = 0")
    case True
    then have "pcol s = 0"
      using assms(2) by (simp add: unat_eq_0)
    then show ?thesis
      using True m r0 by (simp add: perm_body_def)
  next
    case c: False
    then have c0: "pcol s > 0"
      using assms(2) by (auto simp add: word_greater_zero_iff)
    have uc: "unat (pcol s - 1) = c - 1"
      using assms(2) c by (rule unat_pred)
    have le: "m - 1 \<le> MAXBITS" "c - 1 \<le> m - 1"
      using assms(3,4) by simp_all
    have l: "pascalt_at make_pascal_triangle (prow s - 1) (pcol s - 1)
        = Some (of_nat ((m - 1) choose (c - 1)))"
      using ur uc le by (rule pascalt_at_binomial)
    show ?thesis
      using m c r0 c0 le(1)
      by (simp add: perm_body_def l Let_def less_of_nat_binomial)
  qed
qed

lemma perm_loop_result:
  assumes "unat (prow s) = m" "unat (pcol s) = c" "m \<le> MAXBITS" "c \<le> m"
    and "m \<noteq> 0 \<longrightarrow> pthisbit s = 2 ^ (m - 1)"
    and "unat (rank s) < m choose c"
  shows "loop (perm_body make_pascal_triangle) n s
           = Some (n + m, Inr (res s OR of_nat (unrank_nat m c (unat (rank s)))))"
  using assms
proof (induction m arbitrary: c s n)
  case 0
  then have "perm_body make_pascal_triangle s = Break (res s)"
    using perm_body_step [of s 0 c] by simp
  then show ?case
    by (simp add: loop_Break)
next
  case (Suc m)
  note step = perm_body_step [OF Suc.prems(1-4)]
  have ur: "unat (prow s - 1) = m"
    using unat_pred [OF Suc.prems(1)] by simp
  have m: "m \<le> MAXBITS" "m < MAXBITS"
    using Suc.prems(3) by simp_all
  have tb: "pthisbit s = 2 ^ m"
    using Suc.prems(5) by simp
  have tb': "m \<noteq> 0 \<longrightarrow> drop_bit 1 (pthisbit s) = 2 ^ (m - 1)"
    using tb m(2) drop_bit_top [of m] by simp
  show ?case
  proof (cases "0 < c \<and> unat (rank s) < m choose (c - 1)")
    case True
    define s' where "s' = \<lparr>rank = rank s, prow = prow s - 1, pcol = pcol s - 1,
                  pthisbit = drop_bit 1 (pthisbit s), res = res s\<rparr>"
    have b: "perm_body make_pascal_triangle s = Continue s'"
      using step True by (simp add: s'_def)
    have uc: "unat (pcol s - 1) = c - 1"
      using Suc.prems(2) True by (intro unat_pred) simp_all
    have "loop (perm_body make_pascal_triangle) (Suc n) s'
           = Some (Suc n + m, Inr (res s' OR of_nat (unrank_nat m (c - 1) (unat (rank s')))))"
      using ur uc m(1) Suc.prems(4) tb' True by (intro Suc.IH) (simp_all add: s'_def)
    then show ?thesis
      using True by (simp add: loop_Continue [of "perm_body make_pascal_triangle" s s', OF b] s'_def)
  next
    case False
    define K where "K = (if 0 < c then m choose (c - 1) else 0)"
    define s' where "s' = \<lparr>rank = (if 0 < c then rank s - of_nat (m choose (c - 1)) else rank s),
                  prow = prow s - 1, pcol = pcol s,
                  pthisbit = drop_bit 1 (pthisbit s), res = res s OR pthisbit s\<rparr>"
    have b: "perm_body make_pascal_triangle s = Continue s'"
      using step False by (simp add: s'_def)
    have K: "K \<le> unat (rank s)"
      using False by (auto simp add: K_def)
    have "(of_nat (m choose (c - 1)) :: u32) \<le> rank s" if "0 < c"
      using that K m(1) by (simp add: word_le_nat_alt unat_of_nat_binomial K_def)
    then have ur': "unat (rank s') = unat (rank s) - K"
      using m(1) by (simp add: s'_def K_def unat_sub unat_of_nat_binomial)
    have lt: "unat (rank s) - K < m choose c"
    proof (cases c)
      case 0
      then show ?thesis using Suc.prems(6) by (simp add: K_def)
    next
      case (Suc c')
      then show ?thesis using Suc.prems(6) K by (simp add: K_def)
    qed
    then have c: "c \<le> m"
      by (cases "c \<le> m") (simp_all add: binomial_eq_0)
    have ih: "loop (perm_body make_pascal_triangle) (Suc n) s'
           = Some (Suc n + m, Inr (res s' OR of_nat (unrank_nat m c (unat (rank s')))))"
      using ur Suc.prems(2) m(1) c tb' lt ur' by (intro Suc.IH) (simp_all add: s'_def)
    have u: "unrank_nat (Suc m) c (unat (rank s)) = 2 ^ m + unrank_nat m c (unat (rank s) - K)"
      using False by (auto simp add: K_def)
    have "(of_nat (unrank_nat (Suc m) c (unat (rank s))) :: u32)
        = 2 ^ m OR of_nat (unrank_nat m c (unat (rank s) - K))"
      unfolding u by (rule of_nat_pow2_add) (rule unrank_nat_less)
    then show ?thesis
      using ih ur'
      by (simp add: loop_Continue [of "perm_body make_pascal_triangle" s s', OF b] s'_def tb
          or.assoc del: unrank_nat.simps)
  qed
qed

lemma perm_loop_passes:
  "\<exists>i out. loop (perm_body tbl) n s = Some (n + i, out) \<and> i \<le> unat (prow s)
     \<and> (out \<noteq> Inl OutOfRange \<longrightarrow> i = unat (prow s))"
proof (induction "unat (prow s)" arbitrary: s n)
  case 0
  then have "perm_body tbl s = Break (res s)"
    by (simp add: perm_body_def unat_eq_0)
  then show ?case
    using 0 by (simp add: loop_Break)
next
  case (Suc m)
  then have ur: "unat (prow s - 1) = m"
    using unat_pred [of "prow s" "Suc m"] by simp
  have nz: "prow s \<noteq> 0"
    using Suc.hyps(2) by auto
  show ?case
  proof (cases "perm_body tbl s")
    case (Continue s')
    then have "prow s' = prow s - 1"
      by (auto simp add: perm_body_def Let_def split: if_splits option.splits)
    then have m: "m = unat (prow s')"
      using ur by simp
    from Suc.hyps(1) [OF this, of "Suc n"] obtain i out
      where "loop (perm_body tbl) (Suc n) s' = Some (Suc n + i, out)" "i \<le> unat (prow s')"
        "out \<noteq> Inl OutOfRange \<longrightarrow> i = unat (prow s')"
      by blast
    then show ?thesis
      using m Suc.hyps(2) [symmetric]
      by (intro exI [of _ "Suc i"] exI [of _ out])
        (simp add: loop_Continue [of "perm_body tbl" s s', OF Continue])
  next
    case (Break r)
    then show ?thesis
      using nz by (simp add: perm_body_def Let_def split: if_splits option.splits)
  next
    case Fault
    then show ?thesis
      by (simp add: loop_Fault)
  qed
qed

section \<open>The two functions\<close>

lemma le_32_MAXBITS: "(n :: u32) \<le> 32 \<Longrightarrow> unat n \<le> MAXBITS"
  by (simp add: word_le_nat_alt MAXBITS_def)

lemma top_bit_pos: "n \<noteq> 0 \<Longrightarrow> top_bit n = 2 ^ (unat n - 1)"
  by (simp add: top_bit_def unat_minus_one)

lemma top_bit_0: "top_bit 0 = 0"
proof -
  have "unat (0 - 1 :: u32) = 2 ^ 32 - 1"
    by (simp add: unsigned_minus_1_eq_mask mask_eq_exp_minus_1)
  then have "LENGTH(32) \<le> unat (0 - 1 :: u32)"
    by simp
  then show ?thesis
    unfolding top_bit_def by (rule push_bit_word_beyond)
qed

lemma rank_from_permutation_eq:
  assumes "nsetbits \<le> ntotbits" "ntotbits \<le> 32"
  shows "\<exists>i\<le>unat ntotbits. loop (rank_body make_pascal_triangle bitmap) 0 (rank_init ntotbits nsetbits)
     = Some (i, Inr (of_nat (rank_nat (unat ntotbits) (unat ntotbits - unat nsetbits) (unat bitmap))))"
proof -
  have "\<exists>i\<le>unat ntotbits. loop (rank_body make_pascal_triangle bitmap) 0 (rank_init ntotbits nsetbits)
     = Some (0 + i, Inr (total (rank_init ntotbits nsetbits)
          + of_nat (rank_nat (unat ntotbits) (unat ntotbits - unat nsetbits) (unat bitmap))))"
  proof (rule rank_loop_result)
    show "unat (row (rank_init ntotbits nsetbits)) = unat ntotbits"
      by (simp add: rank_init_def)
    show "unat (col (rank_init ntotbits nsetbits)) = unat ntotbits - unat nsetbits"
      using assms(1) by (simp add: rank_init_def unat_sub)
    show "unat ntotbits \<le> MAXBITS"
      using assms(2) by (rule le_32_MAXBITS)
    show "unat ntotbits - unat nsetbits \<le> unat ntotbits"
      by simp
    show "unat ntotbits \<noteq> 0 \<longrightarrow> thisbit (rank_init ntotbits nsetbits) = 2 ^ (unat ntotbits - 1)"
      by (auto simp add: rank_init_def top_bit_pos unat_eq_0)
  qed
  then show ?thesis
    by (simp add: rank_init_def)
qed

lemma choose_cols:
  "(nsetbits :: u32) \<le> ntotbits \<Longrightarrow>
   unat ntotbits choose (unat ntotbits - unat nsetbits) = unat ntotbits choose unat nsetbits"
  by (simp add: word_le_nat_alt binomial_symmetric [symmetric])

lemma permutation_from_rank_eq:
  assumes "nsetbits \<le> ntotbits" "ntotbits \<le> 32"
    and "unat r < unat ntotbits choose unat nsetbits"
  shows "loop (perm_body make_pascal_triangle) 0 (perm_init r ntotbits nsetbits)
     = Some (unat ntotbits,
         Inr (of_nat (unrank_nat (unat ntotbits) (unat ntotbits - unat nsetbits) (unat r))))"
proof -
  have "loop (perm_body make_pascal_triangle) 0 (perm_init r ntotbits nsetbits)
     = Some (0 + unat ntotbits, Inr (res (perm_init r ntotbits nsetbits)
          OR of_nat (unrank_nat (unat ntotbits) (unat ntotbits - unat nsetbits)
                (unat (rank (perm_init r ntotbits nsetbits))))))"
  proof (rule perm_loop_result)
    show "unat (prow (perm_init r ntotbits nsetbits)) = unat ntotbits"
      by (simp add: perm_init_def)
    show "unat (pcol (perm_init r ntotbits nsetbits)) = unat ntotbits - unat nsetbits"
      using assms(1) by (simp add: perm_init_def unat_sub)
    show "unat ntotbits \<le> MAXBITS"
      using assms(2) by (rule le_32_MAXBITS)
    show "unat ntotbits - unat nsetbits \<le> unat ntotbits"
      by simp
    show "unat ntotbits \<noteq> 0 \<longrightarrow> pthisbit (perm_init r ntotbits nsetbits) = 2 ^ (unat ntotbits - 1)"
      by (auto simp add: perm_init_def top_bit_pos unat_eq_0)
    show "unat (rank (perm_init r ntotbits nsetbits))
        < unat ntotbits choose (unat ntotbits - unat nsetbits)"
      using assms(1,3) by (simp add: perm_init_def choose_cols)
  qed
  then show ?thesis
    by (simp add: perm_init_def)
qed

lemma unat_of_nat_rank_nat:
  "m \<le> MAXBITS \<Longrightarrow> c \<le> m \<Longrightarrow> unat (of_nat (rank_nat m c b) :: u32) = rank_nat m c b"
proof -
  assume m: "m \<le> MAXBITS" and c: "c \<le> m"
  have "rank_nat m c b < m choose c"
    using c by (rule rank_nat_less)
  also have "\<dots> < 2 ^ 32"
    using m by (rule binomial_less_2p32)
  finally show ?thesis
    by (simp add: unat_of_nat)
qed

lemma unat_of_nat_unrank_nat:
  "m \<le> MAXBITS \<Longrightarrow> unat (of_nat (unrank_nat m c r) :: u32) = unrank_nat m c r"
proof -
  assume m: "m \<le> MAXBITS"
  have "unrank_nat m c r < 2 ^ m"
    by (rule unrank_nat_less)
  also have "\<dots> \<le> (2::nat) ^ 32"
    using m by (intro power_increasing) (simp_all add: MAXBITS_def)
  finally show ?thesis
    by (simp add: unat_of_nat)
qed

lemma ones_below_unat: "ones_below m (unat b) = popcount_low m b"
proof -
  have "bit (unat b) = bit b"
    by (rule ext) (rule bit_unat_u32)
  then show ?thesis
    by (simp add: ones_below_def popcount_low_def)
qed

lemma in_class_take_bit:
  "in_class b ntotbits nsetbits \<Longrightarrow> take_bit (unat ntotbits) (unat b) = unat b"
proof -
  assume "in_class b ntotbits nsetbits"
  then have "drop_bit (unat ntotbits) (unat b) = 0"
    by (simp add: in_class_def unat_drop_bit_eq [symmetric])
  then show ?thesis
    by (simp add: take_bit_eq_self_iff_drop_bit_eq_0)
qed

lemma permutation_from_rank_value:
  assumes "nsetbits \<le> ntotbits" "ntotbits \<le> 32"
    and "unat r < unat ntotbits choose unat nsetbits"
  shows "permutation_from_rank make_pascal_triangle r ntotbits nsetbits
     = Some (Inr (of_nat (unrank_nat (unat ntotbits) (unat ntotbits - unat nsetbits) (unat r))))"
  unfolding permutation_from_rank_def
  by (simp add: permutation_from_rank_eq [OF assms])

lemma rank_from_permutation_value:
  assumes "nsetbits \<le> ntotbits" "ntotbits \<le> 32"
  shows "rank_from_permutation make_pascal_triangle bitmap ntotbits nsetbits
     = Some (Inr (of_nat (rank_nat (unat ntotbits) (unat ntotbits - unat nsetbits) (unat bitmap))))"
  unfolding rank_from_permutation_def
  using rank_from_permutation_eq [OF assms, of bitmap] by auto

text \<open>
  The model evaluated on concrete inputs, the table computed by \<open>make_pascal_triangle\<close>
  itself.
\<close>

lemma run_table_row_8: "make_pascal_triangle ! 8 = [1, 8, 28, 56, 70, 56, 28, 8, 1]"
  by code_simp

lemma run_permutation_from_rank:
  "permutation_from_rank make_pascal_triangle 3 8 5 = Some (Inr 59)"
  by code_simp

lemma run_rank_from_permutation:
  "rank_from_permutation make_pascal_triangle 59 8 5 = Some (Inr 3)"
  by code_simp

lemma run_one_past: "permutation_from_rank make_pascal_triangle 56 8 5 = Some (Inl OutOfRange)"
  by code_simp

lemma run_widest:
  "permutation_from_rank make_pascal_triangle 601080389 32 16 = Some (Inr 4294901760)"
  by code_simp

lemma class_8_5: "(5 :: u32) \<le> 8" "(8 :: u32) \<le> 32"
  by simp_all

lemma choose_8_5: "(8::nat) choose 5 = 56"
  by (simp add: numeral_eq_Suc)

lemma in_class_59: "in_class 59 8 5"
  by code_simp

section \<open>Ranking and unranking are inverse to each other\<close>

text \<open>
  Claim C1.  For every class \<open>(ntotbits, nsetbits)\<close> with \<open>nsetbits \<le> ntotbits \<le> 32\<close>
  and every rank \<open>r\<close> below the binomial coefficient of \<open>ntotbits\<close> over \<open>nsetbits\<close>,
  \<open>permutation_from_rank\<close> returns a bit-vector, and \<open>rank_from_permutation\<close>
  applied to that bit-vector returns \<open>r\<close>.
\<close>

theorem rank_of_permutation_from_rank:
  assumes "nsetbits \<le> ntotbits" "ntotbits \<le> 32"
    and "unat r < unat ntotbits choose unat nsetbits"
  shows "\<exists>b. permutation_from_rank make_pascal_triangle r ntotbits nsetbits = Some (Inr b)
     \<and> rank_from_permutation make_pascal_triangle b ntotbits nsetbits = Some (Inr r)"
proof -
  define m c where "m = unat ntotbits" and "c = unat ntotbits - unat nsetbits"
  have m: "m \<le> MAXBITS" and c: "c \<le> m"
    using assms(2) by (simp_all add: m_def c_def le_32_MAXBITS)
  have r: "unat r < m choose c"
    using assms(1,3) by (simp add: m_def c_def choose_cols)
  let ?b = "of_nat (unrank_nat m c (unat r)) :: u32"
  have "rank_from_permutation make_pascal_triangle ?b ntotbits nsetbits
      = Some (Inr (of_nat (rank_nat m c (unat ?b))))"
    using assms(1,2) by (simp add: rank_from_permutation_value m_def c_def)
  also have "unat ?b = unrank_nat m c (unat r)"
    using m by (rule unat_of_nat_unrank_nat)
  also have "rank_nat m c (unrank_nat m c (unat r)) = unat r"
    using c r by (rule rank_unrank_nat)
  finally have "rank_from_permutation make_pascal_triangle ?b ntotbits nsetbits = Some (Inr r)"
    by simp
  moreover have "permutation_from_rank make_pascal_triangle r ntotbits nsetbits = Some (Inr ?b)"
    using assms by (simp add: permutation_from_rank_value m_def c_def)
  ultimately show ?thesis
    by blast
qed

theorem rank_of_permutation_from_rank_witness:
  "(5 :: u32) \<le> 8 \<and> (8 :: u32) \<le> 32 \<and> unat (3 :: u32) < unat (8 :: u32) choose unat (5 :: u32)
   \<and> (\<exists>b. permutation_from_rank make_pascal_triangle 3 8 5 = Some (Inr b)
     \<and> rank_from_permutation make_pascal_triangle b 8 5 = Some (Inr 3))"
proof -
  have h: "unat (3 :: u32) < unat (8 :: u32) choose unat (5 :: u32)"
    by (simp add: choose_8_5)
  show ?thesis
    using rank_of_permutation_from_rank [OF class_8_5 h] class_8_5 h by blast
qed

text \<open>
  Claim C2.  For every class \<open>(ntotbits, nsetbits)\<close> with \<open>nsetbits \<le> ntotbits \<le> 32\<close>
  and every bit-vector \<open>b\<close> of the class (exactly \<open>nsetbits\<close> of its low \<open>ntotbits\<close>
  bits are set, none at position \<open>ntotbits\<close> or above), \<open>rank_from_permutation\<close>
  returns a rank, and \<open>permutation_from_rank\<close> applied to that rank returns \<open>b\<close>.
\<close>

theorem permutation_from_rank_of_rank:
  assumes "nsetbits \<le> ntotbits" "ntotbits \<le> 32"
    and "in_class b ntotbits nsetbits"
  shows "\<exists>r. rank_from_permutation make_pascal_triangle b ntotbits nsetbits = Some (Inr r)
     \<and> permutation_from_rank make_pascal_triangle r ntotbits nsetbits = Some (Inr b)"
proof -
  define m c where "m = unat ntotbits" and "c = unat ntotbits - unat nsetbits"
  have m: "m \<le> MAXBITS" and c: "c \<le> m"
    using assms(2) by (simp_all add: m_def c_def le_32_MAXBITS)
  have k: "unat nsetbits \<le> m"
    using assms(1) by (simp add: m_def word_le_nat_alt)
  let ?r = "of_nat (rank_nat m c (unat b)) :: u32"
  have ur: "unat ?r = rank_nat m c (unat b)"
    using m c by (rule unat_of_nat_rank_nat)
  have "rank_nat m c (unat b) < m choose c"
    using c by (rule rank_nat_less)
  then have "unat ?r < m choose c"
    by (simp only: ur)
  then have lt: "unat ?r < unat ntotbits choose unat nsetbits"
    using assms(1) by (simp add: m_def c_def choose_cols)
  have "ones_below m (unat b) = m - c"
    using assms(3) k by (simp add: ones_below_unat in_class_def m_def c_def)
  with c have "unrank_nat m c (rank_nat m c (unat b)) = take_bit m (unat b)"
    by (rule unrank_rank_nat)
  also have "\<dots> = unat b"
    using assms(3) unfolding m_def by (rule in_class_take_bit)
  finally have eq: "unrank_nat m c (rank_nat m c (unat b)) = unat b" .
  have "permutation_from_rank make_pascal_triangle ?r ntotbits nsetbits
      = Some (Inr (of_nat (unrank_nat m c (unat ?r))))"
    using assms(1,2) lt unfolding m_def c_def by (rule permutation_from_rank_value)
  then have "permutation_from_rank make_pascal_triangle ?r ntotbits nsetbits = Some (Inr b)"
    by (simp add: ur eq)
  moreover have "rank_from_permutation make_pascal_triangle b ntotbits nsetbits = Some (Inr ?r)"
    using assms(1,2) by (simp add: rank_from_permutation_value m_def c_def)
  ultimately show ?thesis
    by blast
qed

theorem permutation_from_rank_of_rank_witness:
  "(5 :: u32) \<le> 8 \<and> (8 :: u32) \<le> 32 \<and> in_class 59 8 5
   \<and> (\<exists>r. rank_from_permutation make_pascal_triangle 59 8 5 = Some (Inr r)
     \<and> permutation_from_rank make_pascal_triangle r 8 5 = Some (Inr 59))"
  using permutation_from_rank_of_rank [OF class_8_5 in_class_59] class_8_5 in_class_59 by blast

section \<open>The range of the rank\<close>

text \<open>
  Claim C4.  For every class \<open>(ntotbits, nsetbits)\<close> with \<open>nsetbits \<le> ntotbits \<le> 32\<close>
  and every bit-vector \<open>b\<close> of the class, the value that \<open>rank_from_permutation\<close>
  returns is at least 0 and below the binomial coefficient of \<open>ntotbits\<close> over
  \<open>nsetbits\<close>.
\<close>

theorem rank_from_permutation_range:
  assumes "nsetbits \<le> ntotbits" "ntotbits \<le> 32"
    and "in_class b ntotbits nsetbits"
  shows "\<exists>r. rank_from_permutation make_pascal_triangle b ntotbits nsetbits = Some (Inr r)
     \<and> 0 \<le> unat r \<and> unat r < unat ntotbits choose unat nsetbits"
proof -
  define m c where "m = unat ntotbits" and "c = unat ntotbits - unat nsetbits"
  have m: "m \<le> MAXBITS" and c: "c \<le> m"
    using assms(2) by (simp_all add: m_def c_def le_32_MAXBITS)
  let ?r = "of_nat (rank_nat m c (unat b)) :: u32"
  have ur: "unat ?r = rank_nat m c (unat b)"
    using m c by (rule unat_of_nat_rank_nat)
  have "rank_nat m c (unat b) < m choose c"
    using c by (rule rank_nat_less)
  then have "unat ?r < m choose c"
    by (simp only: ur)
  then have "unat ?r < unat ntotbits choose unat nsetbits"
    using assms(1) by (simp add: m_def c_def choose_cols)
  moreover have "rank_from_permutation make_pascal_triangle b ntotbits nsetbits = Some (Inr ?r)"
    using assms(1,2) by (simp add: rank_from_permutation_value m_def c_def)
  ultimately show ?thesis
    by blast
qed

theorem rank_from_permutation_range_witness:
  "(5 :: u32) \<le> 8 \<and> (8 :: u32) \<le> 32 \<and> in_class 59 8 5
   \<and> (\<exists>r. rank_from_permutation make_pascal_triangle 59 8 5 = Some (Inr r)
     \<and> 0 \<le> unat r \<and> unat r < unat (8 :: u32) choose unat (5 :: u32))"
  using rank_from_permutation_range [OF class_8_5 in_class_59] class_8_5 in_class_59 by blast

section \<open>Unranking is strictly increasing\<close>

text \<open>
  Claim C5.  For every class \<open>(ntotbits, nsetbits)\<close> with \<open>nsetbits \<le> ntotbits \<le> 32\<close>,
  the bit-vectors that \<open>permutation_from_rank\<close> returns for the ranks 0, 1, ... up to
  the binomial coefficient minus one are strictly increasing as unsigned integers: a
  smaller rank gives a smaller bit-vector.
\<close>

theorem permutation_from_rank_strictly_increasing:
  assumes "nsetbits \<le> ntotbits" "ntotbits \<le> 32"
    and "r < r'" "unat r' < unat ntotbits choose unat nsetbits"
  shows "\<exists>b b'. permutation_from_rank make_pascal_triangle r ntotbits nsetbits = Some (Inr b)
     \<and> permutation_from_rank make_pascal_triangle r' ntotbits nsetbits = Some (Inr b')
     \<and> b < b'"
proof -
  define m c where "m = unat ntotbits" and "c = unat ntotbits - unat nsetbits"
  have m: "m \<le> MAXBITS" and c: "c \<le> m"
    using assms(2) by (simp_all add: m_def c_def le_32_MAXBITS)
  have lt: "unat r < unat r'"
    using assms(3) by (simp add: word_less_nat_alt)
  then have r: "unat r < unat ntotbits choose unat nsetbits"
    using assms(4) by simp
  have r': "unat r' < m choose c"
    using assms(1,4) by (simp add: m_def c_def choose_cols)
  let ?b = "of_nat (unrank_nat m c (unat r)) :: u32"
  let ?b' = "of_nat (unrank_nat m c (unat r')) :: u32"
  have "unrank_nat m c (unat r) < unrank_nat m c (unat r')"
    using c lt r' by (rule unrank_nat_mono)
  then have "?b < ?b'"
    using m by (simp add: word_less_nat_alt unat_of_nat_unrank_nat)
  moreover have "permutation_from_rank make_pascal_triangle r ntotbits nsetbits = Some (Inr ?b)"
    using assms(1,2) r unfolding m_def c_def by (rule permutation_from_rank_value)
  moreover have "permutation_from_rank make_pascal_triangle r' ntotbits nsetbits = Some (Inr ?b')"
    using assms(1,2,4) unfolding m_def c_def by (rule permutation_from_rank_value)
  ultimately show ?thesis
    by blast
qed

theorem permutation_from_rank_strictly_increasing_witness:
  "(5 :: u32) \<le> 8 \<and> (8 :: u32) \<le> 32 \<and> (3 :: u32) < 4
   \<and> unat (4 :: u32) < unat (8 :: u32) choose unat (5 :: u32)
   \<and> (\<exists>b b'. permutation_from_rank make_pascal_triangle 3 8 5 = Some (Inr b)
     \<and> permutation_from_rank make_pascal_triangle 4 8 5 = Some (Inr b')
     \<and> b < b')"
proof -
  have h3: "(3 :: u32) < 4"
    by simp
  have h4: "unat (4 :: u32) < unat (8 :: u32) choose unat (5 :: u32)"
    by (simp add: choose_8_5)
  show ?thesis
    using permutation_from_rank_strictly_increasing [OF class_8_5 h3 h4] class_8_5 h3 h4
    by blast
qed

section \<open>The table after \<^verbatim>\<open>make_pascal_triangle\<close>\<close>

text \<open>
  Claim C3.  After \<open>make_pascal_triangle\<close> the table has the 33 rows 0 to 32; row \<open>i\<close>
  has \<open>i + 1\<close> entries, its first and its last entry are 1, and an entry \<open>j\<close> with
  \<open>0 < j < i\<close> is the sum of the entries \<open>j - 1\<close> and \<open>j\<close> of row \<open>i - 1\<close>, a sum that
  stays below \<open>2 ^ 32\<close>.  Every entry \<open>j\<close> of row \<open>i\<close> is the binomial coefficient of \<open>i\<close>
  over \<open>j\<close>, exactly.
\<close>

theorem make_pascal_triangle_binomial:
  assumes "i \<le> 32" "j \<le> i"
  shows "length make_pascal_triangle = 33
     \<and> length (make_pascal_triangle ! i) = i + 1
     \<and> make_pascal_triangle ! i ! 0 = 1
     \<and> make_pascal_triangle ! i ! i = 1
     \<and> (0 < j \<and> j < i \<longrightarrow>
          make_pascal_triangle ! i ! j
            = make_pascal_triangle ! (i - 1) ! (j - 1) + make_pascal_triangle ! (i - 1) ! j
          \<and> unat (make_pascal_triangle ! (i - 1) ! (j - 1))
              + unat (make_pascal_triangle ! (i - 1) ! j) < 2 ^ 32)
     \<and> unat (make_pascal_triangle ! i ! j) = i choose j"
proof -
  have i: "i \<le> MAXBITS"
    using assms(1) by (simp add: MAXBITS_def)
  have row: "make_pascal_triangle ! i = binomial_row i"
    using i by (rule make_pascal_triangle_row)
  have len: "length make_pascal_triangle = 33"
    by (simp add: length_make_pascal_triangle MAXBITS_def)
  have val: "unat (make_pascal_triangle ! i ! j) = i choose j"
    using assms(2) i by (simp add: row nth_binomial_row unat_of_nat_binomial)
  have inner: "make_pascal_triangle ! i ! j
            = make_pascal_triangle ! (i - 1) ! (j - 1) + make_pascal_triangle ! (i - 1) ! j
          \<and> unat (make_pascal_triangle ! (i - 1) ! (j - 1))
              + unat (make_pascal_triangle ! (i - 1) ! j) < 2 ^ 32"
    if jpos: "0 < j" and jlt: "j < i"
  proof -
    from jpos jlt obtain i' j' where eq: "i = Suc i'" "j = Suc j'" "j' < i'"
      by (cases i; cases j) auto
    have i': "i' \<le> MAXBITS"
      using i eq by simp
    have prev: "make_pascal_triangle ! i' = binomial_row i'"
      using i' by (rule make_pascal_triangle_row)
    have "(i' choose j') + (i' choose Suc j') = i choose j"
      by (simp add: eq)
    also have "\<dots> < 2 ^ 32"
      using i by (rule binomial_less_2p32)
    finally have "(i' choose j') + (i' choose Suc j') < 2 ^ 32" .
    moreover have "make_pascal_triangle ! Suc i' = binomial_row (Suc i')"
      using row eq by simp
    ultimately show ?thesis
      using eq i' by (simp add: prev nth_binomial_row unat_of_nat_binomial)
  qed
  show ?thesis
    using len val inner by (simp add: row length_binomial_row nth_binomial_row)
qed

theorem make_pascal_triangle_binomial_witness:
  "(4 :: nat) \<le> 32 \<and> (2 :: nat) \<le> 4 \<and> (0 :: nat) < 2 \<and> (2 :: nat) < 4
   \<and> length make_pascal_triangle = 33
   \<and> length (make_pascal_triangle ! 4) = 5
   \<and> make_pascal_triangle ! 4 ! 0 = 1
   \<and> make_pascal_triangle ! 4 ! 4 = 1
   \<and> make_pascal_triangle ! 4 ! 2 = make_pascal_triangle ! 3 ! 1 + make_pascal_triangle ! 3 ! 2
   \<and> unat (make_pascal_triangle ! 3 ! 1) + unat (make_pascal_triangle ! 3 ! 2) < 2 ^ 32
   \<and> unat (make_pascal_triangle ! 4 ! 2) = 6"
proof -
  have h: "(4 :: nat) \<le> 32" "(2 :: nat) \<le> 4"
    by simp_all
  have p: "(0 :: nat) < 2" "(2 :: nat) < 4"
    by simp_all
  have e: "(4 :: nat) choose 2 = 6" "(4 :: nat) - 1 = 3" "(2 :: nat) - 1 = 1" "(4 :: nat) + 1 = 5"
    by (simp_all add: numeral_eq_Suc)
  show ?thesis
    using make_pascal_triangle_binomial [OF h, unfolded e] h p by blast
qed

section \<open>Boundary classes\<close>

lemma rank_nat_boundary: "rank_nat m 0 b = 0" "rank_nat m m b = 0"
  by (cases m; simp)+

lemma of_nat_all_ones: "(of_nat (2 ^ m - Suc 0) :: u32) = mask m"
proof -
  have "(2 ^ m - Suc 0 :: nat) = mask m"
    by (simp add: mask_eq_exp_minus_1)
  then show ?thesis
    by (simp only: of_nat_mask_eq)
qed

text \<open>
  Claim C8.  The boundary classes need no special case.  For \<open>nsetbits = 0\<close> the rank of the
  all-zero bit-vector is 0 and rank 0 gives the bit-vector 0; for \<open>nsetbits = ntotbits\<close>
  the rank of the bit-vector whose \<open>ntotbits\<close> low bits are all set is 0 and rank 0 gives
  that bit-vector; for \<open>ntotbits = 0\<close> and \<open>nsetbits = 0\<close>, rank 0 gives the bit-vector 0
  and the bit-vector 0 has rank 0.  The classes are those the table covers,
  \<open>ntotbits \<le> 32\<close>.
\<close>

theorem boundary_classes:
  assumes "ntotbits \<le> 32"
  shows "rank_from_permutation make_pascal_triangle 0 ntotbits 0 = Some (Inr 0)
     \<and> permutation_from_rank make_pascal_triangle 0 ntotbits 0 = Some (Inr 0)
     \<and> rank_from_permutation make_pascal_triangle (mask (unat ntotbits)) ntotbits ntotbits
          = Some (Inr 0)
     \<and> permutation_from_rank make_pascal_triangle 0 ntotbits ntotbits
          = Some (Inr (mask (unat ntotbits)))
     \<and> permutation_from_rank make_pascal_triangle 0 0 0 = Some (Inr 0)
     \<and> rank_from_permutation make_pascal_triangle 0 0 0 = Some (Inr 0)"
proof -
  have z: "(0 :: u32) \<le> ntotbits" "(0 :: u32) \<le> 0" "(0 :: u32) \<le> 32" "ntotbits \<le> ntotbits"
    by simp_all
  have "rank_from_permutation make_pascal_triangle 0 ntotbits 0 = Some (Inr 0)"
    using rank_from_permutation_value [OF z(1) assms, of 0] by (simp add: rank_nat_boundary)
  moreover have "permutation_from_rank make_pascal_triangle 0 ntotbits 0 = Some (Inr 0)"
    using permutation_from_rank_value [OF z(1) assms, of 0] by (simp add: unrank_nat_all_zero)
  moreover have "rank_from_permutation make_pascal_triangle (mask (unat ntotbits)) ntotbits ntotbits
          = Some (Inr 0)"
    using rank_from_permutation_value [OF z(4) assms, of "mask (unat ntotbits)"]
    by (simp add: rank_nat_boundary)
  moreover have "permutation_from_rank make_pascal_triangle 0 ntotbits ntotbits
          = Some (Inr (mask (unat ntotbits)))"
    using permutation_from_rank_value [OF z(4) assms, of 0]
    by (simp add: unrank_nat_all_ones of_nat_all_ones del: of_nat_diff)
  moreover have "permutation_from_rank make_pascal_triangle 0 0 0 = Some (Inr 0)"
    using permutation_from_rank_value [OF z(2) z(3), of 0] by simp
  moreover have "rank_from_permutation make_pascal_triangle 0 0 0 = Some (Inr 0)"
    using rank_from_permutation_value [OF z(2) z(3), of 0] by simp
  ultimately show ?thesis
    by simp
qed

theorem boundary_classes_witness:
  "(8 :: u32) \<le> 32
   \<and> rank_from_permutation make_pascal_triangle 0 8 0 = Some (Inr 0)
   \<and> permutation_from_rank make_pascal_triangle 0 8 0 = Some (Inr 0)
   \<and> rank_from_permutation make_pascal_triangle 255 8 8 = Some (Inr 0)
   \<and> permutation_from_rank make_pascal_triangle 0 8 8 = Some (Inr 255)"
  using boundary_classes [of 8] by (simp add: mask_numeral)

section \<open>The class of 5 set bits out of 8\<close>

lemma ascending_8_5:
  "take 20 (filter (\<lambda>b. popcount_low 8 b = 5) (map of_nat [0..<256]))
     = [31, 47, 55, 59, 61, 62, 79, 87, 91, 93, 94, 103, 107, 109, 110, 115, 117, 118, 121, 122]"
  by code_simp

lemma unrank_nat_8_5:
  "map (unrank_nat 8 3) [0..<20]
     = [31, 47, 55, 59, 61, 62, 79, 87, 91, 93, 94, 103, 107, 109, 110, 115, 117, 118, 121, 122]"
  by code_simp

lemma permutation_from_rank_8_5:
  assumes "r < 56"
  shows "permutation_from_rank make_pascal_triangle (of_nat r) 8 5
     = Some (Inr (of_nat (unrank_nat 8 3 r)))"
proof -
  have u: "unat (of_nat r :: u32) = r"
    using assms by (simp add: unat_of_nat)
  have "unat (of_nat r :: u32) < unat (8 :: u32) choose unat (5 :: u32)"
    using assms by (simp add: u choose_8_5)
  from permutation_from_rank_value [OF class_8_5 this] show ?thesis
    by (simp add: u)
qed

text \<open>
  Claim C6.  For the class \<open>(ntotbits = 8, nsetbits = 5)\<close>: rank 0 gives the bit-vector 31
  (binary 00011111); the bit-vector 31 has rank 0; and the ranks 0 to 19 give, in this
  order, the 20 smallest 8-bit values with exactly 5 set bits, a sequence that begins
  31, 47, 55, 59, 61, 62, 79 (binary 00011111, 00101111, 00110111, 00111011, 00111101,
  00111110, 01001111).
\<close>

theorem first_20_of_class_8_5:
  "permutation_from_rank make_pascal_triangle 0 8 5 = Some (Inr 31)
   \<and> rank_from_permutation make_pascal_triangle 31 8 5 = Some (Inr 0)
   \<and> map (\<lambda>r. permutation_from_rank make_pascal_triangle (of_nat r) 8 5) [0..<20]
       = map (\<lambda>b. Some (Inr b))
           (take 20 (filter (\<lambda>b. popcount_low 8 b = 5) (map of_nat [0..<256])))
   \<and> take 7 (filter (\<lambda>b. popcount_low 8 b = 5) (map of_nat [0..<256]))
       = [31, 47, 55, 59, 61, 62, 79]"
proof -
  have "map (\<lambda>r. permutation_from_rank make_pascal_triangle (of_nat r) 8 5) [0..<20]
      = map (\<lambda>r. Some (Inr (of_nat (unrank_nat 8 3 r)))) [0..<20]"
    by (rule map_cong [OF refl]) (simp add: permutation_from_rank_8_5)
  also have "\<dots> = map (\<lambda>b. Some (Inr (of_nat b))) (map (unrank_nat 8 3) [0..<20])"
    by (simp only: map_map comp_def)
  also have "\<dots> = map (\<lambda>b. Some (Inr b))
           (take 20 (filter (\<lambda>b. popcount_low 8 b = 5) (map of_nat [0..<256])))"
    by (simp only: unrank_nat_8_5 ascending_8_5) simp
  finally have all: "map (\<lambda>r. permutation_from_rank make_pascal_triangle (of_nat r) 8 5) [0..<20]
      = map (\<lambda>b. Some (Inr b))
           (take 20 (filter (\<lambda>b. popcount_low 8 b = 5) (map of_nat [0..<256])))" .
  have "unrank_nat 8 3 0 = 31"
    by code_simp
  then have first: "permutation_from_rank make_pascal_triangle 0 8 5 = Some (Inr 31)"
    using permutation_from_rank_8_5 [of 0] by simp
  have "rank_nat 8 3 31 = 0"
    by code_simp
  then have rank: "rank_from_permutation make_pascal_triangle 31 8 5 = Some (Inr 0)"
    using rank_from_permutation_value [OF class_8_5, of 31] by simp
  have "take 7 (take 20 (filter (\<lambda>b. popcount_low 8 b = 5) (map of_nat [0..<256])))
       = [31, 47, 55, 59, 61, 62, 79 :: u32]"
    by (simp only: ascending_8_5) simp
  then have seven: "take 7 (filter (\<lambda>b. popcount_low 8 b = 5) (map of_nat [0..<256]))
       = [31, 47, 55, 59, 61, 62, 79 :: u32]"
    by (simp only: take_take) simp
  show ?thesis
    using first rank all seven by blast
qed

section \<open>Table reads stay in range\<close>

lemma pascalt_at_None_iff:
  "pascalt_at make_pascal_triangle r k = None \<longleftrightarrow> \<not> (unat r \<le> MAXBITS \<and> unat k \<le> unat r)"
  by (auto simp add: pascalt_at_def length_make_pascal_triangle make_pascal_triangle_row
      length_binomial_row)

lemma pascalt_at_pred_in_range:
  "pascalt_at make_pascal_triangle r (k - 1) \<noteq> None
     \<longleftrightarrow> 1 \<le> k \<and> unat k - 1 \<le> unat r \<and> unat r \<le> 32"
proof (cases "k = 0")
  case True
  have "unat (0 - 1 :: u32) = 2 ^ 32 - 1"
    by (simp add: unsigned_minus_1_eq_mask mask_eq_exp_minus_1)
  then show ?thesis
    using True by (auto simp add: pascalt_at_None_iff MAXBITS_def)
next
  case False
  then have "1 \<le> k"
    by (simp add: word_le_nat_alt unat_gt_0 Suc_le_eq)
  then show ?thesis
    using False by (auto simp add: pascalt_at_None_iff MAXBITS_def unat_minus_one)
qed

text \<open>
  Claim C9.  Under the preconditions no table read is out of range.  For
  \<open>nsetbits \<le> ntotbits \<le> 32\<close>, \<open>rank_from_permutation\<close> returns a value for every
  bitmap, and \<open>permutation_from_rank\<close> returns a value for every rank below the
  binomial coefficient: in the model a read outside the table ends the function with
  \<open>OutOfRange\<close>, so no read of either run was outside.  A read of
  \<^verbatim>\<open>pascalt[row][col-1]\<close> is inside the table exactly when \<open>col \<ge> 1\<close>,
  \<open>col - 1 \<le> row\<close> and \<open>row \<le> 32\<close>.
\<close>

theorem table_reads_in_range:
  assumes "nsetbits \<le> ntotbits" "ntotbits \<le> 32"
  shows "(\<exists>v. rank_from_permutation make_pascal_triangle bitmap ntotbits nsetbits = Some (Inr v))
     \<and> (unat r < unat ntotbits choose unat nsetbits \<longrightarrow>
          (\<exists>b. permutation_from_rank make_pascal_triangle r ntotbits nsetbits = Some (Inr b)))
     \<and> (pascalt_at make_pascal_triangle row' (col' - 1) \<noteq> None
          \<longleftrightarrow> 1 \<le> col' \<and> unat col' - 1 \<le> unat row' \<and> unat row' \<le> 32)"
proof (intro conjI)
  show "\<exists>v. rank_from_permutation make_pascal_triangle bitmap ntotbits nsetbits = Some (Inr v)"
    using assms by (simp add: rank_from_permutation_value)
  show "unat r < unat ntotbits choose unat nsetbits \<longrightarrow>
          (\<exists>b. permutation_from_rank make_pascal_triangle r ntotbits nsetbits = Some (Inr b))"
    using assms by (simp add: permutation_from_rank_value)
  show "pascalt_at make_pascal_triangle row' (col' - 1) \<noteq> None
          \<longleftrightarrow> 1 \<le> col' \<and> unat col' - 1 \<le> unat row' \<and> unat row' \<le> 32"
    by (rule pascalt_at_pred_in_range)
qed

theorem table_reads_in_range_witness:
  "(5 :: u32) \<le> 8 \<and> (8 :: u32) \<le> 32 \<and> unat (55 :: u32) < unat (8 :: u32) choose unat (5 :: u32)
   \<and> (\<exists>v. rank_from_permutation make_pascal_triangle 255 8 5 = Some (Inr v))
   \<and> (\<exists>b. permutation_from_rank make_pascal_triangle 55 8 5 = Some (Inr b))"
proof -
  have h: "unat (55 :: u32) < unat (8 :: u32) choose unat (5 :: u32)"
    by (simp add: choose_8_5)
  show ?thesis
    using table_reads_in_range [OF class_8_5, of 255 55] class_8_5 h by blast
qed

section \<open>Termination\<close>

text \<open>
  Claim C10.  Both loops end for every input with \<open>nsetbits \<le> ntotbits \<le> 32\<close>.  The loop
  of \<open>rank_from_permutation\<close> leaves with a result after at most \<open>ntotbits\<close> passes,
  for every bitmap.  The loop of \<open>permutation_from_rank\<close> ends after at most
  \<open>ntotbits\<close> passes for every rank, after exactly \<open>ntotbits\<close> passes unless a table read
  was out of range, and so after exactly \<open>ntotbits\<close> passes, with a result, for every rank
  below the binomial coefficient.
\<close>

theorem loops_terminate:
  assumes "nsetbits \<le> ntotbits" "ntotbits \<le> 32"
  shows "(\<exists>i v. loop (rank_body make_pascal_triangle bitmap) 0 (rank_init ntotbits nsetbits)
            = Some (i, Inr v) \<and> i \<le> unat ntotbits)
     \<and> (\<exists>i out. loop (perm_body make_pascal_triangle) 0 (perm_init r ntotbits nsetbits)
            = Some (i, out) \<and> i \<le> unat ntotbits
            \<and> (out \<noteq> Inl OutOfRange \<longrightarrow> i = unat ntotbits))
     \<and> (unat r < unat ntotbits choose unat nsetbits \<longrightarrow>
          (\<exists>b. loop (perm_body make_pascal_triangle) 0 (perm_init r ntotbits nsetbits)
            = Some (unat ntotbits, Inr b)))"
proof -
  have "\<exists>i v. loop (rank_body make_pascal_triangle bitmap) 0 (rank_init ntotbits nsetbits)
            = Some (i, Inr v) \<and> i \<le> unat ntotbits"
    using rank_from_permutation_eq [OF assms, of bitmap] by blast
  moreover have "\<exists>i out. loop (perm_body make_pascal_triangle) 0 (perm_init r ntotbits nsetbits)
            = Some (i, out) \<and> i \<le> unat ntotbits
            \<and> (out \<noteq> Inl OutOfRange \<longrightarrow> i = unat ntotbits)"
    using perm_loop_passes [of make_pascal_triangle 0 "perm_init r ntotbits nsetbits"]
    by (simp add: perm_init_def)
  moreover have "\<exists>b. loop (perm_body make_pascal_triangle) 0 (perm_init r ntotbits nsetbits)
            = Some (unat ntotbits, Inr b)"
    if "unat r < unat ntotbits choose unat nsetbits"
    using permutation_from_rank_eq [OF assms that] by blast
  ultimately show ?thesis
    by blast
qed

theorem loops_terminate_witness:
  "(5 :: u32) \<le> 8 \<and> (8 :: u32) \<le> 32 \<and> unat (55 :: u32) < unat (8 :: u32) choose unat (5 :: u32)
   \<and> (\<exists>i v. loop (rank_body make_pascal_triangle 255) 0 (rank_init 8 5)
            = Some (i, Inr v) \<and> i \<le> unat (8 :: u32))
   \<and> (\<exists>b. loop (perm_body make_pascal_triangle) 0 (perm_init 55 8 5)
            = Some (unat (8 :: u32), Inr b))"
proof -
  have h: "unat (55 :: u32) < unat (8 :: u32) choose unat (5 :: u32)"
    by (simp add: choose_8_5)
  show ?thesis
    using loops_terminate [OF class_8_5, of 255 55] class_8_5 h by blast
qed

section \<open>The initial value of \<open>thisbit\<close> for \<open>ntotbits = 0\<close>\<close>

text \<open>
  With \<open>row = 0\<close> neither loop body reads \<open>thisbit\<close>, and neither loop goes round: the
  outcome is the same whatever value the shift \<^verbatim>\<open>1 << (ntotbits-1)\<close> has left in it.
\<close>

lemma perm_body_row0: "prow s = 0 \<Longrightarrow> perm_body tbl (s\<lparr>pthisbit := t\<rparr>) = perm_body tbl s"
  by (simp add: perm_body_def)

lemma rank_body_row0:
  assumes "row s = 0"
  shows "rank_body make_pascal_triangle bitmap (s\<lparr>thisbit := t\<rparr>)
     = rank_body make_pascal_triangle bitmap s"
proof (cases "pascalt_at make_pascal_triangle (row s) (col s)")
  case None
  then show ?thesis
    by (simp add: rank_body_def)
next
  case (Some v)
  then have "unat (col s) = 0"
    using assms pascalt_at_None_iff [of "row s" "col s"] by simp
  then have "pascalt_at make_pascal_triangle (row s) (col s) = Some (of_nat (0 choose 0))"
    using assms by (intro pascalt_at_binomial) simp_all
  then show ?thesis
    by (simp add: rank_body_def)
qed

lemma rank_loop_row0:
  assumes "row s = 0"
  shows "loop (rank_body make_pascal_triangle bitmap) n (s\<lparr>thisbit := t\<rparr>)
     = loop (rank_body make_pascal_triangle bitmap) n s"
proof -
  have "rank_body make_pascal_triangle bitmap s \<noteq> Continue s'" for s'
  proof (cases "pascalt_at make_pascal_triangle (row s) (col s)")
    case None
    then show ?thesis
      by (simp add: rank_body_def)
  next
    case (Some v)
    then have "unat (col s) = 0"
      using assms pascalt_at_None_iff [of "row s" "col s"] by simp
    then have "pascalt_at make_pascal_triangle (row s) (col s) = Some (of_nat (0 choose 0))"
      using assms by (intro pascalt_at_binomial) simp_all
    then show ?thesis
      by (simp add: rank_body_def)
  qed
  then show ?thesis
    using rank_body_row0 [OF assms, of bitmap t]
    by (subst (1 2) loop.simps) (simp split: step.splits)
qed

lemma perm_loop_row0:
  "prow s = 0 \<Longrightarrow> loop (perm_body tbl) n (s\<lparr>pthisbit := t\<rparr>) = loop (perm_body tbl) n s"
  by (subst (1 2) loop.simps) (simp add: perm_body_def)

section \<open>Arguments outside the preconditions\<close>

lemma mask_Suc_or: "(mask (Suc m) :: u32) = 2 ^ m OR mask m"
  by (simp add: mask_Suc_exp or.commute)

lemma perm_loop_all_ones:
  assumes "unat (prow s) = m" "unat (pcol s) = c" "m \<le> MAXBITS" "c \<le> m"
    and "m \<noteq> 0 \<longrightarrow> pthisbit s = 2 ^ (m - 1)"
    and "c = 0 \<or> c = 1 \<and> unat (rank s) = m"
  shows "loop (perm_body make_pascal_triangle) n s = Some (n + m, Inr (res s OR mask m))"
  using assms
proof (induction m arbitrary: s n)
  case 0
  then have "perm_body make_pascal_triangle s = Break (res s)"
    using perm_body_step [of s 0 c] by simp
  then show ?case
    by (simp add: loop_Break)
next
  case (Suc m)
  note step = perm_body_step [OF Suc.prems(1-4)]
  have ur: "unat (prow s - 1) = m"
    using unat_pred [OF Suc.prems(1)] by simp
  have m: "m \<le> MAXBITS" "m < MAXBITS"
    using Suc.prems(3) by simp_all
  have tb: "pthisbit s = 2 ^ m"
    using Suc.prems(5) by simp
  have tb': "m \<noteq> 0 \<longrightarrow> drop_bit 1 (pthisbit s) = 2 ^ (m - 1)"
    using tb m(2) drop_bit_top [of m] by simp
  define s' where "s' = \<lparr>rank = (if 0 < c then rank s - of_nat (m choose (c - 1)) else rank s),
                  prow = prow s - 1, pcol = pcol s,
                  pthisbit = drop_bit 1 (pthisbit s), res = res s OR pthisbit s\<rparr>"
  have b: "perm_body make_pascal_triangle s = Continue s'"
    using step Suc.prems(6) by (auto simp add: s'_def)
  show ?case
  proof (cases "m = 0")
    case True
    have "perm_body make_pascal_triangle s' = Break (res s')"
      using ur True by (simp add: perm_body_def s'_def unat_eq_0)
    then have "loop (perm_body make_pascal_triangle) (Suc n) s' = Some (Suc n, Inr (res s'))"
      by (rule loop_Break)
    then show ?thesis
      using True
      by (simp add: loop_Continue [of "perm_body make_pascal_triangle" s s', OF b] s'_def tb)
  next
    case False
    have r': "c = 0 \<or> c = 1 \<and> unat (rank s') = m"
    proof (cases "c = 0")
      case True
      then show ?thesis by simp
    next
      case c: False
      then have c1: "c = 1" and r: "unat (rank s) = Suc m"
        using Suc.prems(6) by simp_all
      have "rank s \<noteq> 0"
        using r by auto
      then have "unat (rank s - 1) = m"
        using r by (simp add: unat_minus_one)
      then show ?thesis
        using c1 by (simp add: s'_def)
    qed
    have c: "c \<le> m"
      using Suc.prems(6) False by auto
    have "loop (perm_body make_pascal_triangle) (Suc n) s' = Some (Suc n + m, Inr (res s' OR mask m))"
      using ur Suc.prems(2) m(1) c tb' r' by (intro Suc.IH) (simp_all add: s'_def)
    then show ?thesis
      by (simp add: loop_Continue [of "perm_body make_pascal_triangle" s s', OF b] s'_def tb
          mask_Suc_or or.assoc)
  qed
qed

lemma perm_loop_one_past_fault:
  assumes "unat (prow s) = m" "unat (pcol s) = c" "m \<le> MAXBITS" "c \<le> m" "2 \<le> c"
    and "unat (rank s) = m choose c"
  shows "\<exists>i. loop (perm_body make_pascal_triangle) n s = Some (n + i, Inl OutOfRange)"
  using assms
proof (induction m arbitrary: s n)
  case 0
  then show ?case by simp
next
  case (Suc m)
  note step = perm_body_step [OF Suc.prems(1-4)]
  have ur: "unat (prow s - 1) = m"
    using unat_pred [OF Suc.prems(1)] by simp
  have m: "m \<le> MAXBITS" "m \<noteq> 0"
    using Suc.prems(3,4,5) by auto
  obtain c' where c': "c = Suc c'" "c' \<le> m" "1 \<le> c'"
    using Suc.prems(4,5) by (cases c) auto
  define s' where "s' = \<lparr>rank = rank s - of_nat (m choose c'),
                  prow = prow s - 1, pcol = pcol s,
                  pthisbit = drop_bit 1 (pthisbit s), res = res s OR pthisbit s\<rparr>"
  have ge: "m choose c' \<le> unat (rank s)"
    using Suc.prems(6) c' by simp
  have b: "perm_body make_pascal_triangle s = Continue s'"
    using step ge c' by (simp add: s'_def)
  have "(of_nat (m choose c') :: u32) \<le> rank s"
    using ge m(1) by (simp add: word_le_nat_alt unat_of_nat_binomial)
  then have r': "unat (rank s') = m choose c"
    using m(1) Suc.prems(6) c' by (simp add: s'_def unat_sub unat_of_nat_binomial)
  have "\<exists>i. loop (perm_body make_pascal_triangle) (Suc n) s' = Some (Suc n + i, Inl OutOfRange)"
  proof (cases "c \<le> m")
    case True
    then show ?thesis
      using ur Suc.prems(2,5) m(1) r' by (intro Suc.IH) (simp_all add: s'_def)
  next
    case False
    then have cm: "c = Suc m"
      using Suc.prems(4) by simp
    have nz: "prow s' \<noteq> 0" "pcol s' > 0"
      using ur m(2) Suc.prems(2) cm by (auto simp add: s'_def word_greater_zero_iff)
    have "unat (pcol s' - 1) = m"
      using unat_pred [of "pcol s'" c] Suc.prems(2) cm by (simp add: s'_def)
    moreover have "unat (prow s' - 1) = m - 1"
      using unat_pred [of "prow s'" m] ur m(2) by (simp add: s'_def)
    ultimately have "pascalt_at make_pascal_triangle (prow s' - 1) (pcol s' - 1) = None"
      using m(2) by (auto simp add: pascalt_at_None_iff)
    then have "perm_body make_pascal_triangle s' = Fault"
      using nz by (simp add: perm_body_def Let_def)
    then have "loop (perm_body make_pascal_triangle) (Suc n) s' = Some (Suc n, Inl OutOfRange)"
      by (rule loop_Fault)
    then show ?thesis
      by (intro exI [of _ 0]) simp
  qed
  then obtain i where "loop (perm_body make_pascal_triangle) (Suc n) s' = Some (Suc n + i, Inl OutOfRange)"
    by blast
  then show ?case
    by (intro exI [of _ "Suc i"])
      (simp add: loop_Continue [of "perm_body make_pascal_triangle" s s', OF b])
qed

lemma permutation_from_rank_one_past:
  assumes "nsetbits \<le> ntotbits" "ntotbits \<le> 32"
    and "unat r = unat ntotbits choose unat nsetbits"
  shows "permutation_from_rank make_pascal_triangle r ntotbits nsetbits
     = (if unat ntotbits - unat nsetbits \<le> 1 then Some (Inr (mask (unat ntotbits)))
        else Some (Inl OutOfRange))"
proof -
  define m c where "m = unat ntotbits" and "c = unat ntotbits - unat nsetbits"
  let ?s = "perm_init r ntotbits nsetbits"
  have s: "unat (prow ?s) = m" "unat (pcol ?s) = c" "m \<le> MAXBITS" "c \<le> m"
    "m \<noteq> 0 \<longrightarrow> pthisbit ?s = 2 ^ (m - 1)"
    using assms(1,2)
    by (auto simp add: perm_init_def m_def c_def unat_sub le_32_MAXBITS top_bit_pos unat_eq_0)
  have r: "unat (rank ?s) = m choose c"
    using assms(1,3) by (simp add: perm_init_def m_def c_def choose_cols)
  show ?thesis
  proof (cases "c \<le> 1")
    case True
    then have "c = 0 \<or> c = 1"
      by auto
    then have "c = 0 \<or> c = 1 \<and> unat (rank ?s) = m"
      using r by auto
    with s have "loop (perm_body make_pascal_triangle) 0 ?s = Some (0 + m, Inr (res ?s OR mask m))"
      by (rule perm_loop_all_ones)
    then show ?thesis
      using True by (simp add: permutation_from_rank_def perm_init_def m_def c_def)
  next
    case False
    then have "2 \<le> c"
      by simp
    with s(1-4) have "\<exists>i. loop (perm_body make_pascal_triangle) 0 ?s = Some (0 + i, Inl OutOfRange)"
      using r by (rule perm_loop_one_past_fault)
    then show ?thesis
      using False by (auto simp add: permutation_from_rank_def m_def c_def)
  qed
qed

text \<open>
  Claim C7 says that both operations reject a violated precondition with InvalidArgument
  before any work: \<open>rank_from_permutation\<close> when the population count of the low
  \<open>ntotbits\<close> bits differs from \<open>nsetbits\<close>, \<open>permutation_from_rank\<close> when the rank
  equals the binomial coefficient.  The code has no such check.  The all-zero bitmap has no
  set bit, yet in the class \<open>(8, 5)\<close> it is given the rank 0; in the class \<open>(1, 1)\<close> the
  rank 1, one past the only valid rank, is given the bit-vector 1.
\<close>

theorem argument_check_counterexample:
  "popcount_low (unat (8 :: u32)) 0 \<noteq> unat (5 :: u32)
   \<and> rank_from_permutation make_pascal_triangle 0 8 5 = Some (Inr 0)
   \<and> unat (1 :: u32) = unat (1 :: u32) choose unat (1 :: u32)
   \<and> permutation_from_rank make_pascal_triangle 1 1 1 = Some (Inr 1)"
proof -
  have "popcount_low (unat (8 :: u32)) 0 \<noteq> unat (5 :: u32)"
    by (simp add: popcount_low_def)
  moreover have "rank_nat 8 3 0 = 0"
    by code_simp
  then have "rank_from_permutation make_pascal_triangle 0 8 5 = Some (Inr 0)"
    using rank_from_permutation_value [OF class_8_5, of 0] by simp
  moreover have one: "unat (1 :: u32) = unat (1 :: u32) choose unat (1 :: u32)"
    by simp
  moreover have "permutation_from_rank make_pascal_triangle 1 1 1 = Some (Inr 1)"
    using permutation_from_rank_one_past [of 1 1 1] by simp
  ultimately show ?thesis
    by blast
qed

text \<open>
  Claim C7 as amended.  Neither function checks its arguments.  For
  \<open>nsetbits \<le> ntotbits \<le> 32\<close>, \<open>rank_from_permutation\<close> runs its loop and returns a value
  for every bitmap, whatever its population count.  \<open>permutation_from_rank\<close> called
  with the rank equal to the binomial coefficient runs its loop too: when
  \<open>ntotbits - nsetbits \<le> 1\<close> it returns the bit-vector whose \<open>ntotbits\<close> low bits are all
  set, otherwise it reads the table out of range.
\<close>

theorem no_argument_check:
  assumes "nsetbits \<le> ntotbits" "ntotbits \<le> 32"
  shows "(\<exists>v. rank_from_permutation make_pascal_triangle bitmap ntotbits nsetbits = Some (Inr v))
     \<and> (unat r = unat ntotbits choose unat nsetbits \<longrightarrow>
          permutation_from_rank make_pascal_triangle r ntotbits nsetbits
            = (if unat ntotbits - unat nsetbits \<le> 1 then Some (Inr (mask (unat ntotbits)))
               else Some (Inl OutOfRange)))"
  using assms by (simp add: rank_from_permutation_value permutation_from_rank_one_past)

theorem no_argument_check_witness:
  "(5 :: u32) \<le> 8 \<and> (8 :: u32) \<le> 32 \<and> unat (56 :: u32) = unat (8 :: u32) choose unat (5 :: u32)
   \<and> (\<exists>v. rank_from_permutation make_pascal_triangle 0 8 5 = Some (Inr v))
   \<and> permutation_from_rank make_pascal_triangle 56 8 5 = Some (Inl OutOfRange)"
proof -
  have h: "unat (56 :: u32) = unat (8 :: u32) choose unat (5 :: u32)"
    by (simp add: choose_8_5)
  have "\<not> unat (8 :: u32) - unat (5 :: u32) \<le> 1"
    by simp
  then show ?thesis
    using no_argument_check [OF class_8_5, of 0 56] class_8_5 h by auto
qed

end
